theory Spec2Isabelle
  imports Complex_Main "HOL-Library.AList"
begin

section \<open>JavaScript values and containers\<close>

text \<open>
  The repository holds three versions of one browser script. The first script of
  \<^verbatim>\<open>src/unnamed/part_000\<close> (lines 1 to 335) is the one with \<^verbatim>\<open>heldKeys\<close>,
  \<^verbatim>\<open>stopVoiceNow\<close>, \<^verbatim>\<open>forceOff\<close> and \<^verbatim>\<open>forceAllOff\<close>; \<^verbatim>\<open>src/piano.js\<close> is a version
  without them. Definitions without a prefix embed the first script of \<^verbatim>\<open>part_000\<close>;
  definitions named \<open>piano_...\<close> embed \<^verbatim>\<open>src/piano.js\<close> where it differs.

  JavaScript numbers that only pass through to the audio interface (times, levels,
  frequencies) are modelled as reals; MIDI numbers and octaves are integers.
\<close>

type_synonym key = string

text \<open>A voice is the object \<^verbatim>\<open>{osc, gain}\<close> made by \<^verbatim>\<open>noteOn\<close>; the model keeps its identity.\<close>

type_synonym voice = nat

text \<open>
  A JavaScript \<^verbatim>\<open>Set\<close> keeps insertion order and holds no element twice:
  a list, with \<^verbatim>\<open>add\<close> and \<^verbatim>\<open>delete\<close> as follows. A \<^verbatim>\<open>Map\<close> is an association list:
  \<^verbatim>\<open>get\<close> is \<^const>\<open>map_of\<close>, \<^verbatim>\<open>set\<close> is \<^const>\<open>AList.update\<close> (in place for a key that is
  present, at the end otherwise), \<^verbatim>\<open>delete\<close> is \<^const>\<open>AList.delete\<close>, \<^verbatim>\<open>keys()\<close> is
  \<^term>\<open>map fst\<close>.
\<close>

definition set_add :: "'a \<Rightarrow> 'a list \<Rightarrow> 'a list" where
  "set_add x xs = (if x \<in> set xs then xs else xs @ [x])"

definition set_delete :: "'a \<Rightarrow> 'a list \<Rightarrow> 'a list" where
  "set_delete x xs = filter (\<lambda>y. y \<noteq> x) xs"

text \<open>
  Number-to-string conversion of an integer, as string concatenation performs it
  (decimal digits, a leading minus sign for a negative number).
\<close>

definition digit_char :: "nat \<Rightarrow> char" where
  "digit_char d = ''0123456789'' ! d"

fun show_nat :: "nat \<Rightarrow> string" where
  "show_nat n = (if n < 10 then [digit_char n] else show_nat (n div 10) @ [digit_char (n mod 10)])"

declare show_nat.simps [simp del]

definition show_int :: "int \<Rightarrow> string" where
  "show_int i = (if i < 0 then CHR ''-'' # show_nat (nat (- i)) else show_nat (nat i))"

text \<open>The remainder operator \<^verbatim>\<open>%\<close>: the result has the sign of the dividend.\<close>

definition js_rem :: "int \<Rightarrow> int \<Rightarrow> int" where
  "js_rem a b = (if a < 0 then - ((- a) mod \<bar>b\<bar>) else a mod \<bar>b\<bar>)"

text \<open>
  What \<^verbatim>\<open>NAMES[i] + n\<close> evaluates to: a string when \<^verbatim>\<open>NAMES[i]\<close> is one, and the number
  \<^verbatim>\<open>NaN\<close> when \<^verbatim>\<open>NAMES[i]\<close> is \<^verbatim>\<open>undefined\<close> (an index outside the array).
\<close>

datatype js_value = Str string | NaN

datatype js_error = TypeError

section \<open>Note helpers\<close>

text \<open>\<^verbatim>\<open>function midiToFreq(m){ return 440 * Math.pow(2, (m - 69) / 12); }\<close>\<close>

definition midiToFreq :: "real \<Rightarrow> real" where
  "midiToFreq m = 440 * 2 powr ((m - 69) / 12)"

definition NAMES :: "string list" where
  "NAMES = [''C'', ''C#'', ''D'', ''D#'', ''E'', ''F'', ''F#'', ''G'', ''G#'', ''A'', ''A#'', ''B'']"

text \<open>
  The match of \<^verbatim>\<open>/^([A-G])(#|b)?(\d)$/\<close>: the three groups, the second one optional.
\<close>

definition is_letter :: "char \<Rightarrow> bool" where
  "is_letter c = (c \<in> set ''ABCDEFG'')"

definition is_digit :: "char \<Rightarrow> bool" where
  "is_digit c = (c \<in> set ''0123456789'')"

fun note_match :: "string \<Rightarrow> (char \<times> char option \<times> char) option" where
  "note_match [L, d] = (if is_letter L \<and> is_digit d then Some (L, None, d) else None)"
| "note_match [L, acc, d] =
     (if is_letter L \<and> (acc = CHR ''#'' \<or> acc = CHR ''b'') \<and> is_digit d
      then Some (L, Some acc, d) else None)"
| "note_match _ = None"

text \<open>The number \<^verbatim>\<open>+o\<close> of the one-digit string \<^verbatim>\<open>o\<close>.\<close>

definition digit_val :: "char \<Rightarrow> int" where
  "digit_val c = int (of_char c) - 48"

text \<open>
  \<^verbatim>\<open>{C:0, D:2, E:4, F:5, G:7, A:9, B:11}[L]\<close>; the pattern admits the seven letters only,
  so the last branch is \<^verbatim>\<open>B\<close>.
\<close>

definition base_of :: "char \<Rightarrow> int" where
  "base_of L =
     (if L = CHR ''C'' then 0 else if L = CHR ''D'' then 2 else if L = CHR ''E'' then 4
      else if L = CHR ''F'' then 5 else if L = CHR ''G'' then 7 else if L = CHR ''A'' then 9
      else 11)"

text \<open>\<^verbatim>\<open>noteToMidi\<close>; the result \<^verbatim>\<open>null\<close> is \<^const>\<open>None\<close>.\<close>

definition noteToMidi :: "string \<Rightarrow> int option" where
  "noteToMidi note =
     (case note_match note of
        None \<Rightarrow> None
      | Some (L, acc, d) \<Rightarrow>
          (let octave = digit_val d;
               base = base_of L;
               v = base + (if acc = Some (CHR ''#'') then 1 else if acc = Some (CHR ''b'') then - 1 else 0)
           in Some ((octave + 1) * 12 + v)))"

text \<open>
  \<^verbatim>\<open>function midiToNote(m){ return NAMES[m%12] + (Math.floor(m/12)-1); }\<close>
  For a negative \<open>m\<close> that is no multiple of 12 the index \<^verbatim>\<open>m%12\<close> is negative,
  \<^verbatim>\<open>NAMES[m%12]\<close> is \<^verbatim>\<open>undefined\<close>, and \<^verbatim>\<open>undefined + number\<close> is \<^verbatim>\<open>NaN\<close>.
\<close>

definition midiToNote :: "int \<Rightarrow> js_value" where
  "midiToNote m =
     (let i = js_rem m 12
      in if 0 \<le> i \<and> nat i < length NAMES
         then Str (NAMES ! nat i @ show_int (m div 12 - 1))
         else NaN)"

text \<open>
  \<^verbatim>\<open>noteToMidi(midiToNote(m))\<close>: \<^verbatim>\<open>note.match\<close> on a number raises a \<^verbatim>\<open>TypeError\<close>.
\<close>

definition noteToMidi_value :: "js_value \<Rightarrow> js_error + int option" where
  "noteToMidi_value x = (case x of Str note \<Rightarrow> Inr (noteToMidi note) | NaN \<Rightarrow> Inl TypeError)"

section \<open>The audio engine\<close>

text \<open>
  The calls the script makes on the Web Audio graph and on the timer queue, in the
  order it makes them. A voice's oscillator and gain node are named by the voice.
  \<open>SetTimeout v ms\<close> is \<^verbatim>\<open>setTimeout(()=> stopVoiceNow(v), ms)\<close>.
\<close>

datatype audio_op =
    CtxResume
  | CreateOscillator voice
  | CreateGain voice
  | SetOscType voice string
  | SetFrequency voice real
  | SetValueAtTime voice real real
  | LinearRampToValueAtTime voice real real
  | Connect voice
  | OscStart voice
  | OscStop voice
  | OscDisconnect voice
  | GainDisconnect voice
  | CancelScheduledValues voice real
  | SetTargetAtTime voice real real real
  | SetTimeout voice real

text \<open>The object \<^verbatim>\<open>state\<close> of the script.\<close>

record settings =
  wave :: string
  volume :: real
  attack :: real
  release :: real
  baseOct :: int
  octaves :: int
  velocityMode :: string

text \<open>
  The variables of the script's closure: \<^verbatim>\<open>started\<close>, \<^verbatim>\<open>active\<close>, \<^verbatim>\<open>heldKeys\<close>,
  \<^verbatim>\<open>sustain\<close>, \<^verbatim>\<open>sustainPool\<close>, \<^verbatim>\<open>state\<close>; the audio clock \<^verbatim>\<open>ctx.currentTime\<close>; the
  identity of the next voice object; and the calls made so far.
\<close>

record piano =
  started :: bool
  currentTime :: real
  active :: "(key \<times> voice) list"
  heldKeys :: "key list"
  sustain :: bool
  sustainPool :: "key list"
  state :: settings
  next_voice :: voice
  trace :: "audio_op list"

definition initial_settings :: settings where
  "initial_settings =
     \<lparr>wave = ''triangle'', volume = 0.7, attack = 12, release = 320,
      baseOct = 4, octaves = 2, velocityMode = ''ypos''\<rparr>"

definition initial :: piano where
  "initial =
     \<lparr>started = False, currentTime = 0, active = [], heldKeys = [], sustain = False,
      sustainPool = [], state = initial_settings, next_voice = 0, trace = []\<rparr>"

text \<open>
  \<^verbatim>\<open>function stopVoiceNow(v){ try { v.osc.stop(); v.osc.disconnect(); v.gain.disconnect(); } catch(e){} }\<close>
  The three calls are recorded; an exception of the audio layer is swallowed by the
  source and is outside the model.
\<close>

definition stopVoiceNow :: "voice \<Rightarrow> piano \<Rightarrow> piano" where
  "stopVoiceNow v s = s\<lparr>trace := trace s @ [OscStop v, OscDisconnect v, GainDisconnect v]\<rparr>"

text \<open>
  The calls by which \<^verbatim>\<open>noteOn\<close> makes and starts the voice \<open>n\<close>; \<open>Connect n\<close> is
  \<^verbatim>\<open>osc.connect(g).connect(master)\<close>. Both files make them in this order.
\<close>

definition start_ops :: "voice \<Rightarrow> real \<Rightarrow> real \<Rightarrow> piano \<Rightarrow> audio_op list" where
  "start_ops n freq vel s =
     (let t = currentTime s;
          attack = max 0 (attack (state s) / 1000);
          level = max 0 (min 1 (volume (state s) * vel))
      in [CreateOscillator n, CreateGain n, SetOscType n (wave (state s)), SetFrequency n freq,
          SetValueAtTime n 0 t, LinearRampToValueAtTime n level (t + attack), Connect n, OscStart n])"

text \<open>\<^verbatim>\<open>noteOn\<close> of \<^verbatim>\<open>part_000\<close> (lines 36 to 57): a voice that exists for the key is stopped first.\<close>

definition noteOn :: "key \<Rightarrow> real \<Rightarrow> real \<Rightarrow> piano \<Rightarrow> piano" where
  "noteOn k freq vel s =
     (let s1 = (case map_of (active s) k of Some prev \<Rightarrow> stopVoiceNow prev s | None \<Rightarrow> s);
          n = next_voice s1
      in s1\<lparr>trace := trace s1 @ start_ops n freq vel s1,
             next_voice := Suc n,
             active := AList.update k n (active s1)\<rparr>)"

text \<open>
  The release that \<^verbatim>\<open>noteOff\<close> and \<^verbatim>\<open>forceOff\<close> both write out: cancel the scheduled
  values, decay to 0 with time constant \<^verbatim>\<open>rel/3\<close>, and stop the voice after
  \<^verbatim>\<open>rel*1000 + 50\<close> milliseconds.
\<close>

definition fade_ops :: "voice \<Rightarrow> piano \<Rightarrow> audio_op list" where
  "fade_ops v s =
     (let t = currentTime s;
          rel = max 0.02 (release (state s) / 1000)
      in [CancelScheduledValues v t, SetTargetAtTime v 0 t (rel / 3), SetTimeout v (rel * 1000 + 50)])"

text \<open>\<^verbatim>\<open>noteOff\<close>: the normal release, which honours sustain (the same statements in both files).\<close>

definition noteOff :: "key \<Rightarrow> piano \<Rightarrow> piano" where
  "noteOff k s =
     (case map_of (active s) k of
        None \<Rightarrow> s
      | Some v \<Rightarrow>
          if sustain s then s\<lparr>sustainPool := set_add k (sustainPool s)\<rparr>
          else s\<lparr>trace := trace s @ fade_ops v s, active := AList.delete k (active s)\<rparr>)"

text \<open>\<^verbatim>\<open>forceOff\<close>: the forced release, which ignores sustain.\<close>

definition forceOff :: "key \<Rightarrow> piano \<Rightarrow> piano" where
  "forceOff k s =
     (case map_of (active s) k of
        None \<Rightarrow> s
      | Some v \<Rightarrow>
          s\<lparr>trace := trace s @ fade_ops v s,
            active := AList.delete k (active s),
            sustainPool := set_delete k (sustainPool s),
            heldKeys := set_delete k (heldKeys s)\<rparr>)"

text \<open>
  \<^verbatim>\<open>for(const k of Array.from(active.keys())) noteOff(k); sustainPool.clear();\<close>
  The loop runs over a copy of the keys.
\<close>

definition allNotesOff :: "piano \<Rightarrow> piano" where
  "allNotesOff s = (fold noteOff (map fst (active s)) s)\<lparr>sustainPool := []\<rparr>"

definition forceAllOff :: "piano \<Rightarrow> piano" where
  "forceAllOff s = (fold forceOff (map fst (active s)) s)\<lparr>sustainPool := []\<rparr>"

section \<open>Handlers\<close>

text \<open>\<^verbatim>\<open>'m' + midi\<close>, where \<^verbatim>\<open>midi\<close> is a number or \<^verbatim>\<open>null\<close>.\<close>

definition key_of :: "int option \<Rightarrow> key" where
  "key_of midi = (case midi of None \<Rightarrow> ''mnull'' | Some m \<Rightarrow> CHR ''m'' # show_int m)"

text \<open>\<^verbatim>\<open>midiToFreq(midi)\<close> for the result of \<^verbatim>\<open>noteToMidi\<close>: in arithmetic \<^verbatim>\<open>null\<close> is 0.\<close>

definition freq_of :: "int option \<Rightarrow> real" where
  "freq_of midi = midiToFreq (case midi of None \<Rightarrow> 0 | Some m \<Rightarrow> real_of_int m)"

text \<open>\<^verbatim>\<open>if(!started){ ctx.resume(); started = true; }\<close>\<close>

definition resume :: "piano \<Rightarrow> piano" where
  "resume s = (if started s then s else s\<lparr>trace := trace s @ [CtxResume], started := True\<rparr>)"

text \<open>
  \<^verbatim>\<open>activate(el, e)\<close> and \<^verbatim>\<open>deactivate(el)\<close>, for the element whose \<^verbatim>\<open>data-note\<close> is
  \<open>note\<close>; \<open>vel\<close> is what \<^verbatim>\<open>getVelocity(el, e)\<close> returns (it reads the pointer event
  and the geometry of the element). The class \<^verbatim>\<open>active\<close> of the element is display only.
\<close>

definition activate :: "string \<Rightarrow> real \<Rightarrow> piano \<Rightarrow> piano" where
  "activate note vel s =
     (let s1 = resume s;
          midi = noteToMidi note;
          freq = freq_of midi;
          k = key_of midi;
          s2 = s1\<lparr>heldKeys := set_add k (heldKeys s1)\<rparr>
      in noteOn k freq vel s2)"

definition deactivate :: "string \<Rightarrow> piano \<Rightarrow> piano" where
  "deactivate note s =
     (let midi = noteToMidi note;
          k = key_of midi;
          s1 = s\<lparr>heldKeys := set_delete k (heldKeys s)\<rparr>
      in noteOff k s1)"

text \<open>
  \<^verbatim>\<open>sustainCb.onchange\<close> of \<^verbatim>\<open>part_000\<close> (lines 259 to 269); \<open>checked\<close> is
  \<^verbatim>\<open>sustainCb.checked\<close>.
\<close>

definition sustain_onchange :: "bool \<Rightarrow> piano \<Rightarrow> piano" where
  "sustain_onchange checked s =
     (let prev = sustain s;
          s1 = s\<lparr>sustain := checked\<rparr>
      in if prev \<and> \<not> sustain s1
         then (fold (\<lambda>k st. if k \<notin> set (heldKeys st) then forceOff k st else st)
                 (map fst (active s1)) s1)\<lparr>sustainPool := []\<rparr>
         else s1)"

text \<open>
  The elements that \<^verbatim>\<open>buildPiano\<close> makes. Its list \<^verbatim>\<open>notes\<close> holds twelve names per
  octave, for the octaves \<^verbatim>\<open>baseOct\<close>, ..., \<^verbatim>\<open>baseOct + octaves - 1\<close>, each marked white
  or black.
\<close>

definition octave_notes :: "int \<Rightarrow> (string \<times> bool) list" where
  "octave_notes oct =
     map (\<lambda>(n, white). (n @ show_int oct, white))
       [(''C'', True), (''C#'', False), (''D'', True), (''D#'', False), (''E'', True),
        (''F'', True), (''F#'', False), (''G'', True), (''G#'', False), (''A'', True),
        (''A#'', False), (''B'', True)]"

definition built_notes :: "settings \<Rightarrow> (string \<times> bool) list" where
  "built_notes st =
     concat (map (\<lambda>i. octave_notes (baseOct st + int i)) [0 ..< nat (octaves st)])"

text \<open>\<^verbatim>\<open>n.n.match(/\d+$/)[0]\<close>: the digits at the end of a name; a minus sign is not among them.\<close>

definition trailing_digits :: "string \<Rightarrow> string" where
  "trailing_digits n = rev (takeWhile is_digit (rev n))"

text \<open>
  Every white note gets an element whose \<^verbatim>\<open>data-note\<close> is its name. The white note
  number \<^verbatim>\<open>wIdx\<close> with \<^verbatim>\<open>wIdx % 7\<close> among 0, 1, 3, 4, 5 gets a black element when the name
  \<^verbatim>\<open>`${L}#${oct}`\<close>, made of its first character and its trailing digits, is a name of
  \<^verbatim>\<open>notes\<close>; the \<^verbatim>\<open>data-note\<close> of that element is this name. Every handler that changes
  \<^verbatim>\<open>baseOct\<close> or \<^verbatim>\<open>octaves\<close> rebuilds the piano, so
  \<^verbatim>\<open>document.querySelector(`[data-note="${note}"]`)\<close> finds an element exactly for the
  names listed here.
\<close>

definition piano_notes :: "settings \<Rightarrow> string list" where
  "piano_notes st =
     (let notes = built_notes st;
          whites = map fst (filter snd notes);
          blacks =
            concat (map (\<lambda>(wIdx, n).
                      if wIdx mod 7 \<in> set [0, 1, 3, 4, 5]
                      then (let sharpName = take 1 n @ ''#'' @ trailing_digits n
                            in if sharpName \<in> set (map fst notes) then [sharpName] else [])
                      else [])
                    (zip [0 ..< length whites] whites))
      in whites @ blacks)"

definition KEY_MAP :: "(string \<times> int) list" where
  "KEY_MAP =
     [(''A'', 0), (''W'', 1), (''S'', 2), (''E'', 3), (''D'', 4), (''F'', 5),
      (''T'', 6), (''G'', 7), (''Y'', 8), (''H'', 9), (''U'', 10), (''J'', 11)]"

text \<open>
  A keyboard event: \<^verbatim>\<open>e.target.tagName\<close>, \<^verbatim>\<open>e.repeat\<close>, \<^verbatim>\<open>e.key.toUpperCase()\<close>,
  \<^verbatim>\<open>e.shiftKey\<close>.
\<close>

record key_event =
  tagName :: string
  repeat :: bool
  key_upper :: string
  shiftKey :: bool

definition keydown :: "key_event \<Rightarrow> piano \<Rightarrow> piano" where
  "keydown e s =
     (if tagName e \<in> set [''INPUT'', ''SELECT'', ''TEXTAREA''] then s
      else if repeat e then s
      else if key_upper e = ''Z''
        then s\<lparr>state := (state s)\<lparr>baseOct := max 2 (baseOct (state s) - 1)\<rparr>\<rparr>
      else if key_upper e = ''X''
        then s\<lparr>state := (state s)\<lparr>baseOct := min 6 (baseOct (state s) + 1)\<rparr>\<rparr>
      else case map_of KEY_MAP (key_upper e) of
        None \<Rightarrow> s
      | Some semis \<Rightarrow>
          (let base = baseOct (state s) + (if shiftKey e then 1 else 0);
               midi = (base + 1) * 12 + semis
           in case midiToNote midi of
                NaN \<Rightarrow> s
              | Str note \<Rightarrow>
                  if note \<notin> set (piano_notes (state s)) then s
                  else (let s1 = resume s;
                            k = key_of (Some midi);
                            s2 = s1\<lparr>heldKeys := set_add k (heldKeys s1)\<rparr>
                        in noteOn k (midiToFreq (real_of_int midi)) 0.95 s2)))"

definition keyup :: "key_event \<Rightarrow> piano \<Rightarrow> piano" where
  "keyup e s =
     (case map_of KEY_MAP (key_upper e) of
        None \<Rightarrow> s
      | Some semis \<Rightarrow>
          (let base = baseOct (state s) + (if shiftKey e then 1 else 0);
               midi = (base + 1) * 12 + semis;
               k = key_of (Some midi);
               s1 = s\<lparr>heldKeys := set_delete k (heldKeys s)\<rparr>
           in noteOff k s1))"

text \<open>
  \<^verbatim>\<open>const forceSilence = ()=> forceAllOff();\<close> It is the handler of \<^verbatim>\<open>pointerup\<close>,
  \<^verbatim>\<open>touchend\<close> and \<^verbatim>\<open>touchcancel\<close> on the window, of the change to a hidden document,
  of the delayed orientation change, and of the 3-second interval.
\<close>

definition forceSilence :: "piano \<Rightarrow> piano" where
  "forceSilence s = forceAllOff s"

text \<open>
  The events of the page: the handlers above, the controls that write a field of
  \<^verbatim>\<open>state\<close> (any new settings; the master gain that the volume control also sets is
  not modelled), the callback of a timer that \<^verbatim>\<open>noteOff\<close> or \<^verbatim>\<open>forceOff\<close> has set, and
  the audio clock moving on. \<^verbatim>\<open>allNotesOff\<close> is defined in \<^verbatim>\<open>part_000\<close> and called by no
  handler there, so it is no event.
\<close>

datatype event =
    Activate string real
  | Deactivate string
  | KeyDown key_event
  | KeyUp key_event
  | SustainChange bool
  | ForceSilence
  | Controls settings
  | TimeoutFires voice
  | ClockAdvance real

fun handle :: "event \<Rightarrow> piano \<Rightarrow> piano" where
  "handle (Activate note vel) s = activate note vel s"
| "handle (Deactivate note) s = deactivate note s"
| "handle (KeyDown e) s = keydown e s"
| "handle (KeyUp e) s = keyup e s"
| "handle (SustainChange checked) s = sustain_onchange checked s"
| "handle ForceSilence s = forceSilence s"
| "handle (Controls st) s = s\<lparr>state := st\<rparr>"
| "handle (TimeoutFires v) s = stopVoiceNow v s"
| "handle (ClockAdvance t) s = s\<lparr>currentTime := t\<rparr>"

text \<open>The state after a sequence of events, from the state in which the script starts.\<close>

definition run :: "event list \<Rightarrow> piano \<Rightarrow> piano" where
  "run es s = fold handle es s"

section \<open>The version in \<^verbatim>\<open>src/piano.js\<close>\<close>

text \<open>
  \<^verbatim>\<open>src/piano.js\<close> has no \<^verbatim>\<open>heldKeys\<close>, \<^verbatim>\<open>stopVoiceNow\<close>, \<^verbatim>\<open>forceOff\<close> or \<^verbatim>\<open>forceAllOff\<close>.
  Its \<^verbatim>\<open>noteOff\<close> (lines 50 to 70) has the statements of \<^const>\<open>noteOff\<close>, with the body
  of \<^verbatim>\<open>stopVoiceNow\<close> written out in the timer callback. Its \<^verbatim>\<open>noteOn\<close> (lines 30 to 48)
  makes the new voice and stores it, and does not look at the voice the key had.
\<close>

definition piano_noteOn :: "key \<Rightarrow> real \<Rightarrow> real \<Rightarrow> piano \<Rightarrow> piano" where
  "piano_noteOn k freq vel s =
     (let n = next_voice s
      in s\<lparr>trace := trace s @ start_ops n freq vel s,
            next_voice := Suc n,
            active := AList.update k n (active s)\<rparr>)"

text \<open>\<^verbatim>\<open>activateKey(el, e)\<close> and \<^verbatim>\<open>deactivateKey(el)\<close> (lines 197 to 212).\<close>

definition piano_activateKey :: "string \<Rightarrow> real \<Rightarrow> piano \<Rightarrow> piano" where
  "piano_activateKey note vel s =
     (let s1 = resume s;
          midi = noteToMidi note;
          freq = freq_of midi
      in piano_noteOn (key_of midi) freq vel s1)"

definition piano_deactivateKey :: "string \<Rightarrow> piano \<Rightarrow> piano" where
  "piano_deactivateKey note s = noteOff (key_of (noteToMidi note)) s"

text \<open>
  The handlers of \<^verbatim>\<open>pointerup\<close>, \<^verbatim>\<open>touchend\<close> and \<^verbatim>\<open>touchcancel\<close> on the window
  (lines 335 to 345): \<^verbatim>\<open>for (const k of active.keys()) noteOff(k);\<close> The iterator is
  live, and \<^verbatim>\<open>noteOff(k)\<close> removes no entry but the current one, so the loop visits the
  keys the map had when it began.
\<close>

definition piano_window_pointerup :: "piano \<Rightarrow> piano" where
  "piano_window_pointerup s = fold noteOff (map fst (active s)) s"

text \<open>
  The 3-second interval (lines 357 to 361):
  \<^verbatim>\<open>for (const [key, voice] of active) { if (voice.gain.gain.value > 0.0001) noteOff(key); }\<close>
  \<open>gain_value\<close> is what the audio engine reports as the current gain of a voice.
\<close>

definition piano_interval :: "(voice \<Rightarrow> real) \<Rightarrow> piano \<Rightarrow> piano" where
  "piano_interval gain_value s =
     fold (\<lambda>(k, v) st. if gain_value v > 0.0001 then noteOff k st else st) (active s) s"

text \<open>
  \<^verbatim>\<open>sustainCb.onchange\<close> (lines 263 to 269):
  \<^verbatim>\<open>sustain = sustainCb.checked; if (!sustain) { for (const k of sustainPool) noteOff(k); sustainPool.clear(); }\<close>
\<close>

definition piano_sustain_onchange :: "bool \<Rightarrow> piano \<Rightarrow> piano" where
  "piano_sustain_onchange checked s =
     (let s1 = s\<lparr>sustain := checked\<rparr>
      in if \<not> sustain s1 then (fold noteOff (sustainPool s1) s1)\<lparr>sustainPool := []\<rparr> else s1)"

section \<open>Consistency of the three containers\<close>

text \<open>
  What the handlers of \<^verbatim>\<open>part_000\<close> maintain: the voice table has one entry per key; its
  keys are exactly the held keys and the keys of the sustain pool; and the pool is empty
  while the pedal is up.
\<close>

definition consistent :: "piano \<Rightarrow> bool" where
  "consistent s \<longleftrightarrow>
     distinct (map fst (active s)) \<and>
     fst ` set (active s) = set (heldKeys s) \<union> set (sustainPool s) \<and>
     (sustain s \<or> sustainPool s = [])"

section \<open>Properties of the note helpers\<close>

lemma less_10_cases: "(d::nat) < 10 \<Longrightarrow> d \<in> {0,1,2,3,4,5,6,7,8,9}"
  by simp arith

lemma digit_val_digit_char: "d < 10 \<Longrightarrow> digit_val (digit_char d) = int d"
  using less_10_cases [of d] by (auto simp: digit_val_def digit_char_def)

lemma is_digit_digit_char: "d < 10 \<Longrightarrow> is_digit (digit_char d)"
  using less_10_cases [of d] by (auto simp: is_digit_def digit_char_def)

lemma digit_char_plain: "d < 10 \<Longrightarrow> digit_char d \<noteq> CHR ''#'' \<and> digit_char d \<noteq> CHR ''b''"
  using less_10_cases [of d] by (auto simp: digit_char_def)

lemma noteToMidi_natural:
  "is_letter L \<Longrightarrow> d < 10 \<Longrightarrow> noteToMidi [L, digit_char d] = Some ((int d + 1) * 12 + base_of L)"
  by (simp add: noteToMidi_def is_digit_digit_char digit_val_digit_char)

lemma noteToMidi_sharp:
  "is_letter L \<Longrightarrow> d < 10 \<Longrightarrow>
   noteToMidi [L, CHR ''#'', digit_char d] = Some ((int d + 1) * 12 + (base_of L + 1))"
  by (simp add: noteToMidi_def is_digit_digit_char digit_val_digit_char)

lemma less_12_cases: "(r::nat) < 12 \<Longrightarrow> r \<in> {0,1,2,3,4,5,6,7,8,9,10,11}"
  by simp arith

lemma noteToMidi_NAMES:
  assumes "r < 12" "d < 10"
  shows "noteToMidi (NAMES ! r @ [digit_char d]) = Some ((int d + 1) * 12 + int r)"
  using less_12_cases [OF assms(1)] assms(2)
  by (auto simp: NAMES_def noteToMidi_natural noteToMidi_sharp is_letter_def base_of_def)

lemma show_nat_hd:
  "\<exists>c ds. show_nat n = c # ds \<and> c \<noteq> CHR ''#'' \<and> c \<noteq> CHR ''b'' \<and> (10 \<le> n \<longrightarrow> ds \<noteq> [])"
proof (induction n rule: show_nat.induct)
  case (1 n)
  show ?case
  proof (cases "n < 10")
    case True
    then show ?thesis by (simp add: show_nat.simps [of n] digit_char_plain)
  next
    case False
    with 1 obtain c ds where "show_nat (n div 10) = c # ds" "c \<noteq> CHR ''#''" "c \<noteq> CHR ''b''"
      by blast
    with False show ?thesis by (simp add: show_nat.simps [of n])
  qed
qed

lemma show_int_long:
  assumes "q < 0 \<or> 10 \<le> q"
  shows "\<exists>c ds. show_int q = c # ds \<and> c \<noteq> CHR ''#'' \<and> c \<noteq> CHR ''b'' \<and> ds \<noteq> []"
proof (cases "q < 0")
  case True
  obtain c ds where "show_nat (nat (- q)) = c # ds" using show_nat_hd by blast
  with True show ?thesis by (simp add: show_int_def)
next
  case False
  with assms have "10 \<le> nat q" by simp
  with show_nat_hd [of "nat q"] False show ?thesis by (auto simp: show_int_def)
qed

lemma note_match_plain: "c \<noteq> CHR ''#'' \<Longrightarrow> c \<noteq> CHR ''b'' \<Longrightarrow> ds \<noteq> [] \<Longrightarrow> note_match (L # c # ds) = None"
  by (cases ds rule: note_match.cases) auto


lemma NAMES_shape:
  "r < 12 \<Longrightarrow> (\<exists>L. NAMES ! r = [L]) \<or> (\<exists>L. NAMES ! r = [L, CHR ''#''])"
  using less_12_cases [of r] by (auto simp: NAMES_def)

lemma noteToMidi_long:
  assumes "r < 12" "q < 0 \<or> 10 \<le> q"
  shows "noteToMidi (NAMES ! r @ show_int q) = None"
proof -
  obtain c ds where q: "show_int q = c # ds" "c \<noteq> CHR ''#''" "c \<noteq> CHR ''b''" "ds \<noteq> []"
    using show_int_long [OF assms(2)] by blast
  obtain d ds' where ds: "ds = d # ds'" using q(4) by (cases ds) auto
  from NAMES_shape [OF assms(1)] show ?thesis
  proof (elim disjE exE)
    fix L assume "NAMES ! r = [L]"
    then show ?thesis using q by (simp add: noteToMidi_def note_match_plain)
  next
    fix L assume "NAMES ! r = [L, CHR ''#'']"
    then show ?thesis using q ds by (simp add: noteToMidi_def)
  qed
qed

lemma midiToNote_nonneg:
  assumes "0 \<le> m"
  shows "midiToNote m = Str (NAMES ! nat (m mod 12) @ show_int (m div 12 - 1))"
proof -
  have "nat (m mod 12) < 12" by simp
  then show ?thesis using assms by (simp add: midiToNote_def js_rem_def NAMES_def)
qed

lemma midiToNote_dvd:
  assumes "m < 0" "12 dvd m"
  shows "midiToNote m = Str (NAMES ! 0 @ show_int (m div 12 - 1))"
proof -
  have "(- m) mod 12 = 0" using assms(2) by presburger
  then show ?thesis using assms by (simp add: midiToNote_def js_rem_def NAMES_def)
qed

lemma midiToNote_NaN:
  assumes "m < 0" "\<not> 12 dvd m"
  shows "midiToNote m = NaN"
proof -
  have "0 < (- m) mod 12" using assms(2) by presburger
  then show ?thesis using assms by (simp add: midiToNote_def js_rem_def)
qed

lemma show_int_digit: "0 \<le> q \<Longrightarrow> q < 10 \<Longrightarrow> show_int q = [digit_char (nat q)]"
  by (simp add: show_int_def show_nat.simps)

text \<open>
  C9. The pitch helpers at the values the specification names: \<^verbatim>\<open>midiToFreq(69)\<close> is 440,
  \<^verbatim>\<open>noteToMidi("A4")\<close> is 69, and \<^verbatim>\<open>midiToNote(60)\<close> is the string \<^verbatim>\<open>"C4"\<close>. (At 69 the
  exponent is 0 and the power is 1, in floating point as over the reals.)
\<close>

theorem pitch_helpers_values:
  "midiToFreq 69 = 440 \<and> noteToMidi ''A4'' = Some 69 \<and> midiToNote 60 = Str ''C4''"
proof (intro conjI)
  show "midiToFreq 69 = 440" by (simp add: midiToFreq_def)
  show "noteToMidi ''A4'' = Some 69"
    by (simp add: noteToMidi_def is_letter_def is_digit_def digit_val_def base_of_def)
  show "midiToNote 60 = Str ''C4''"
    by (simp add: midiToNote_def js_rem_def NAMES_def show_int_def show_nat.simps digit_char_def)
qed

text \<open>
  C10, as the claim states it, fails below zero: \<^verbatim>\<open>midiToNote(-1)\<close> is not a name but the
  number \<^verbatim>\<open>NaN\<close> (\<^verbatim>\<open>-1 % 12\<close> is \<^verbatim>\<open>-1\<close> and \<^verbatim>\<open>NAMES[-1]\<close> is \<^verbatim>\<open>undefined\<close>), and
  \<^verbatim>\<open>noteToMidi\<close> applied to it raises a \<^verbatim>\<open>TypeError\<close> instead of returning \<^verbatim>\<open>null\<close>.
\<close>

theorem midiToNote_minus_one_not_a_name:
  "midiToNote (- 1) = NaN \<and> noteToMidi_value (midiToNote (- 1)) = Inl TypeError
   \<and> noteToMidi_value (midiToNote (- 1)) \<noteq> Inr None"
  by (simp add: midiToNote_def js_rem_def noteToMidi_value_def)

text \<open>
  C10, amended. For every integer \<open>m\<close> from 12 to 131, \<^verbatim>\<open>noteToMidi(midiToNote(m))\<close> is
  \<open>m\<close>. For every other \<open>m\<close> that is not negative, and for every negative multiple of 12,
  \<^verbatim>\<open>midiToNote(m)\<close> is a name that \<^verbatim>\<open>noteToMidi\<close> rejects by returning \<^verbatim>\<open>null\<close>. For a
  negative \<open>m\<close> that is no multiple of 12, \<^verbatim>\<open>midiToNote(m)\<close> is \<^verbatim>\<open>NaN\<close>, on which
  \<^verbatim>\<open>noteToMidi\<close> raises a \<^verbatim>\<open>TypeError\<close>.
\<close>

theorem note_round_trip:
  "noteToMidi_value (midiToNote m) =
     (if 12 \<le> m \<and> m \<le> 131 then Inr (Some m)
      else if 0 \<le> m \<or> 12 dvd m then Inr None
      else Inl TypeError)"
proof -
  consider (range) "12 \<le> m" "m \<le> 131" | (low) "0 \<le> m" "m < 12" | (high) "131 < m"
    | (neg_dvd) "m < 0" "12 dvd m" | (neg) "m < 0" "\<not> 12 dvd m"
    by linarith
  then show ?thesis
  proof cases
    case range
    let ?q = "m div 12 - 1"
    have q: "0 \<le> ?q" "?q < 10" using range by presburger+
    have r: "nat (m mod 12) < 12" by simp
    have "noteToMidi (NAMES ! nat (m mod 12) @ show_int ?q) =
            Some ((int (nat ?q) + 1) * 12 + int (nat (m mod 12)))"
      using q r by (simp add: show_int_digit noteToMidi_NAMES)
    moreover have "(int (nat ?q) + 1) * 12 + int (nat (m mod 12)) = m"
      using q by simp
    ultimately show ?thesis using range
      by (simp add: midiToNote_nonneg noteToMidi_value_def)
  next
    case low
    then have "m div 12 - 1 < 0" by simp
    then have "noteToMidi (NAMES ! nat (m mod 12) @ show_int (m div 12 - 1)) = None"
      by (intro noteToMidi_long) simp_all
    then show ?thesis using low by (simp add: midiToNote_nonneg noteToMidi_value_def)
  next
    case high
    then have "10 \<le> m div 12 - 1" by presburger
    then have "noteToMidi (NAMES ! nat (m mod 12) @ show_int (m div 12 - 1)) = None"
      by (intro noteToMidi_long) simp_all
    then show ?thesis using high by (simp add: midiToNote_nonneg noteToMidi_value_def)
  next
    case neg_dvd
    then have "m div 12 - 1 < 0" by presburger
    then have "noteToMidi (NAMES ! 0 @ show_int (m div 12 - 1)) = None"
      by (intro noteToMidi_long) simp_all
    then show ?thesis using neg_dvd by (simp add: midiToNote_dvd noteToMidi_value_def)
  next
    case neg
    then show ?thesis by (simp add: midiToNote_NaN noteToMidi_value_def)
  qed
qed


theorem note_round_trip_witness:
  "noteToMidi_value (midiToNote 60) = Inr (Some 60)
   \<and> noteToMidi_value (midiToNote 132) = Inr None
   \<and> noteToMidi_value (midiToNote (- 24)) = Inr None
   \<and> noteToMidi_value (midiToNote (- 5)) = Inl TypeError"
  using note_round_trip [of 60] note_round_trip [of 132] note_round_trip [of "- 24"]
    note_round_trip [of "- 5"]
  by simp

section \<open>Properties of the release operations and of the sweeps\<close>

lemma set_delete_notin [simp]: "x \<notin> set xs \<Longrightarrow> set_delete x xs = xs"
  by (induction xs) (auto simp: set_delete_def)

lemma set_set_delete [simp]: "set (set_delete x xs) = set xs - {x}"
  by (auto simp: set_delete_def)

lemma set_set_add [simp]: "set (set_add x xs) = insert x (set xs)"
  by (auto simp: set_add_def)

lemma distinct_set_add: "distinct xs \<Longrightarrow> distinct (set_add x xs)"
  by (simp add: set_add_def)

lemma forceOff_None: "map_of (active s) k = None \<Longrightarrow> forceOff k s = s"
  by (simp add: forceOff_def)

lemma forceOff_Some:
  "map_of (active s) k = Some v \<Longrightarrow>
   forceOff k s = s\<lparr>trace := trace s @ fade_ops v s, active := AList.delete k (active s),
                     sustainPool := set_delete k (sustainPool s),
                     heldKeys := set_delete k (heldKeys s)\<rparr>"
  by (simp add: forceOff_def)

lemma forceOff_active: "active (forceOff k s) = AList.delete k (active s)"
proof (cases "map_of (active s) k")
  case None
  then have "k \<notin> fst ` set (active s)" by (simp add: map_of_eq_None_iff)
  then show ?thesis using None by (simp add: forceOff_None)
next
  case (Some v)
  then show ?thesis by (simp add: forceOff_Some)
qed

lemma fade_ops_cong:
  "currentTime s' = currentTime s \<Longrightarrow> state s' = state s \<Longrightarrow> fade_ops v s' = fade_ops v s"
  by (simp add: fade_ops_def)

lemma forceOff_frame:
  "sustain (forceOff k s) = sustain s" "state (forceOff k s) = state s"
  "currentTime (forceOff k s) = currentTime s" "next_voice (forceOff k s) = next_voice s"
  "started (forceOff k s) = started s"
  by (cases "map_of (active s) k"; simp add: forceOff_def)+




lemma noteOff_None: "map_of (active s) k = None \<Longrightarrow> noteOff k s = s"
  by (simp add: noteOff_def)

lemma noteOff_up:
  "\<not> sustain s \<Longrightarrow> map_of (active s) k = Some v \<Longrightarrow>
   noteOff k s = s\<lparr>trace := trace s @ fade_ops v s, active := AList.delete k (active s)\<rparr>"
  by (simp add: noteOff_def)

lemma map_of_delete_same [simp]: "map_of (AList.delete k al) k = None"
  by (simp add: AList.delete_conv')



lemma forceOff_keys: "fst ` set (active (forceOff k s)) = fst ` set (active s) - {k}"
  by (auto simp: forceOff_active AList.delete_eq)

lemma forceOff_held:
  "set (heldKeys (forceOff k s)) = set (heldKeys s) - (if k \<in> fst ` set (active s) then {k} else {})"
proof (cases "map_of (active s) k")
  case None
  then show ?thesis by (simp add: forceOff_None map_of_eq_None_iff)
next
  case (Some v)
  then have "k \<in> fst ` set (active s)" by (metis map_of_eq_None_iff option.distinct(1))
  then show ?thesis using Some by (simp add: forceOff_Some)
qed

lemma forceOff_trace:
  "trace (forceOff k s) =
     trace s @ (case map_of (active s) k of None \<Rightarrow> [] | Some v \<Rightarrow> fade_ops v s)"
  by (cases "map_of (active s) k") (simp_all add: forceOff_def)

lemma sweep_frame:
  "sustain (fold (\<lambda>k st. if k \<in> H then st else forceOff k st) ks s) = sustain s \<and>
   state (fold (\<lambda>k st. if k \<in> H then st else forceOff k st) ks s) = state s \<and>
   currentTime (fold (\<lambda>k st. if k \<in> H then st else forceOff k st) ks s) = currentTime s \<and>
   next_voice (fold (\<lambda>k st. if k \<in> H then st else forceOff k st) ks s) = next_voice s \<and>
   started (fold (\<lambda>k st. if k \<in> H then st else forceOff k st) ks s) = started s"
  by (induction ks arbitrary: s) (simp_all add: forceOff_frame)

lemma sweep_active:
  "active (fold (\<lambda>k st. if k \<in> H then st else forceOff k st) ks s) =
     filter (\<lambda>(k, v). k \<in> H \<or> k \<notin> set ks) (active s)"
proof (induction ks arbitrary: s)
  case Nil
  then show ?case by simp
next
  case (Cons k ks)
  show ?case
    by (auto simp: Cons.IH forceOff_active AList.delete_eq case_prod_unfold intro: filter_cong)
qed

lemma sweep_held:
  "set (heldKeys (fold (\<lambda>k st. if k \<in> H then st else forceOff k st) ks s)) =
     set (heldKeys s) - {k \<in> set ks. k \<notin> H \<and> k \<in> fst ` set (active s)}"
proof (induction ks arbitrary: s)
  case Nil
  then show ?case by simp
next
  case (Cons k ks)
  show ?case
    by (auto simp: Cons.IH forceOff_held forceOff_keys split: if_splits)
qed

lemma sweep_trace:
  assumes "distinct ks"
  shows "trace (fold (\<lambda>k st. if k \<in> H then st else forceOff k st) ks s) =
     trace s @ concat (map (\<lambda>k. if k \<in> H then []
                                  else case map_of (active s) k of None \<Rightarrow> [] | Some v \<Rightarrow> fade_ops v s) ks)"
  using assms
proof (induction ks arbitrary: s)
  case Nil
  then show ?case by simp
next
  case (Cons k ks)
  let ?F = "\<lambda>s k. if k \<in> H then []
                  else case map_of (active s) k of None \<Rightarrow> [] | Some v \<Rightarrow> fade_ops v s"
  have dist: "distinct ks" and notin: "k \<notin> set ks" using Cons.prems by simp_all
  show ?case
  proof (cases "k \<in> H")
    case True
    then show ?thesis using Cons.IH [OF dist, of s] by simp
  next
    case False
    have meq: "map (?F (forceOff k s)) ks = map (?F s) ks"
    proof (rule map_cong [OF refl])
      fix k' assume "k' \<in> set ks"
      then have "k' \<noteq> k" using notin by auto
      then have "map_of (active (forceOff k s)) k' = map_of (active s) k'"
        by (simp add: forceOff_active AList.delete_conv')
      moreover have "\<And>v. fade_ops v (forceOff k s) = fade_ops v s"
        by (rule fade_ops_cong) (simp_all add: forceOff_frame)
      ultimately show "?F (forceOff k s) k' = ?F s k'" by (simp split: option.split)
    qed
    have "trace (fold (\<lambda>k st. if k \<in> H then st else forceOff k st) ks (forceOff k s)) =
        trace (forceOff k s) @ concat (map (?F (forceOff k s)) ks)"
      by (rule Cons.IH [OF dist])
    then have "trace (fold (\<lambda>k st. if k \<in> H then st else forceOff k st) ks (forceOff k s)) =
        trace (forceOff k s) @ concat (map (?F s) ks)"
      by (simp only: meq)
    then show ?thesis using False by (simp add: forceOff_trace)
  qed
qed

lemma concat_map_if:
  "concat (map (\<lambda>x. if P x then [] else g x) xs) = concat (map g (filter (\<lambda>x. \<not> P x) xs))"
  by (induction xs) simp_all

lemma faded_by_entry:
  assumes "distinct (map fst al)"
  shows "concat (map (\<lambda>k. if k \<in> H then []
                  else case map_of al k of None \<Rightarrow> [] | Some v \<Rightarrow> f v) (map fst al)) =
         concat (map (\<lambda>(k, v). f v) (filter (\<lambda>(k, v). k \<notin> H) al))"
proof -
  have eq: "\<And>p. p \<in> set al \<Longrightarrow> map_of al (fst p) = Some (snd p)"
    using assms by simp
  have "map (\<lambda>k. if k \<in> H then []
                  else case map_of al k of None \<Rightarrow> [] | Some v \<Rightarrow> f v) (map fst al) =
        map (\<lambda>p. if fst p \<in> H then [] else f (snd p)) al"
    unfolding map_map by (rule map_cong [OF refl]) (simp add: eq)
  moreover have "concat (map (\<lambda>p. if fst p \<in> H then [] else f (snd p)) al) =
        concat (map (\<lambda>p. f (snd p)) (filter (\<lambda>p. fst p \<notin> H) al))"
    by (rule concat_map_if)
  ultimately show ?thesis
    by (simp only: case_prod_unfold)
qed

lemma forceAllOff_sweep:
  "forceAllOff s =
     (fold (\<lambda>k st. if k \<in> {} then st else forceOff k st) (map fst (active s)) s)\<lparr>sustainPool := []\<rparr>"
  by (simp add: forceAllOff_def)

lemma forceAllOff_fields: "active (forceAllOff s) = [] \<and> sustainPool (forceAllOff s) = []"
  using sweep_active [of "{}" "map fst (active s)" s]
  by (simp add: forceAllOff_def case_prod_unfold)

lemma forceAllOff_trace:
  assumes "distinct (map fst (active s))"
  shows "trace (forceAllOff s) = trace s @ concat (map (\<lambda>(k, v). fade_ops v s) (active s))"
  using sweep_trace [OF assms, of "{}" s] faded_by_entry [OF assms, of "{}" "\<lambda>v. fade_ops v s"]
  by (simp add: forceAllOff_sweep)

lemma pedal_sweep_held:
  "heldKeys (fold (\<lambda>k st. if k \<notin> set (heldKeys st) then forceOff k st else st) ks s) = heldKeys s"
proof (induction ks arbitrary: s)
  case Nil
  then show ?case by simp
next
  case (Cons k ks)
  have "heldKeys (if k \<notin> set (heldKeys s) then forceOff k s else s) = heldKeys s"
    by (cases "map_of (active s) k") (simp_all add: forceOff_def)
  then show ?case by (simp add: Cons.IH)
qed

lemma pedal_sweep_static:
  "fold (\<lambda>k st. if k \<notin> set (heldKeys st) then forceOff k st else st) ks s =
   fold (\<lambda>k st. if k \<in> set (heldKeys s) then st else forceOff k st) ks s"
proof (induction ks arbitrary: s)
  case Nil
  then show ?case by simp
next
  case (Cons k ks)
  have held: "heldKeys (if k \<notin> set (heldKeys s) then forceOff k s else s) = heldKeys s"
    by (cases "map_of (active s) k") (simp_all add: forceOff_def)
  show ?case
    using Cons.IH [of "if k \<notin> set (heldKeys s) then forceOff k s else s"]
    by (simp add: held)
qed


lemma pedal_up:
  assumes "sustain s"
  shows "active (sustain_onchange False s) = filter (\<lambda>(k, v). k \<in> set (heldKeys s)) (active s)"
    and "heldKeys (sustain_onchange False s) = heldKeys s"
    and "sustainPool (sustain_onchange False s) = []"
    and "sustain (sustain_onchange False s) = False"
proof -
  let ?s1 = "s\<lparr>sustain := False\<rparr>"
  have eq: "sustain_onchange False s =
      (fold (\<lambda>k st. if k \<in> set (heldKeys s) then st else forceOff k st)
         (map fst (active s)) ?s1)\<lparr>sustainPool := []\<rparr>"
    using assms pedal_sweep_static [of "map fst (active s)" ?s1]
    by (simp add: sustain_onchange_def)
  have "filter (\<lambda>(k, v). k \<in> set (heldKeys s) \<or> k \<notin> set (map fst (active s))) (active s) =
        filter (\<lambda>(k, v). k \<in> set (heldKeys s)) (active s)"
    by (rule filter_cong) force+
  then show "active (sustain_onchange False s) = filter (\<lambda>(k, v). k \<in> set (heldKeys s)) (active s)"
    by (simp add: eq sweep_active)
  show "heldKeys (sustain_onchange False s) = heldKeys s"
    using assms pedal_sweep_held [of "map fst (active s)" ?s1]
    by (simp add: sustain_onchange_def)
  show "sustainPool (sustain_onchange False s) = []" by (simp add: eq)
  show "sustain (sustain_onchange False s) = False"
    using sweep_frame [of "set (heldKeys s)" "map fst (active s)" ?s1] by (simp add: eq)
qed

lemma pedal_up_trace:
  assumes "sustain s" "distinct (map fst (active s))"
  shows "trace (sustain_onchange False s) =
     trace s @ concat (map (\<lambda>(k, v). fade_ops v s)
                         (filter (\<lambda>(k, v). k \<notin> set (heldKeys s)) (active s)))"
proof -
  let ?s1 = "s\<lparr>sustain := False\<rparr>"
  let ?F = "\<lambda>s' k. if k \<in> set (heldKeys s) then []
                   else case map_of (active s') k of None \<Rightarrow> [] | Some v \<Rightarrow> fade_ops v s'"
  have eq: "sustain_onchange False s =
      (fold (\<lambda>k st. if k \<in> set (heldKeys s) then st else forceOff k st)
         (map fst (active s)) ?s1)\<lparr>sustainPool := []\<rparr>"
    using assms pedal_sweep_static [of "map fst (active s)" ?s1]
    by (simp add: sustain_onchange_def)
  have F: "?F ?s1 = ?F s"
    by (rule ext) (simp add: fade_ops_def split: option.split)
  have "trace (fold (\<lambda>k st. if k \<in> set (heldKeys s) then st else forceOff k st)
                 (map fst (active s)) ?s1) =
        trace ?s1 @ concat (map (?F ?s1) (map fst (active s)))"
    by (rule sweep_trace [OF assms(2)])
  also have "\<dots> = trace s @ concat (map (?F s) (map fst (active s)))"
    by (simp only: F) simp
  also have "\<dots> = trace s @ concat (map (\<lambda>(k, v). fade_ops v s)
                         (filter (\<lambda>(k, v). k \<notin> set (heldKeys s)) (active s)))"
    by (simp only: faded_by_entry [OF assms(2)])
  finally show ?thesis by (simp add: eq)
qed

lemma sustain_onchange_other:
  "\<not> (sustain s \<and> \<not> checked) \<Longrightarrow> sustain_onchange checked s = s\<lparr>sustain := checked\<rparr>"
  by (auto simp: sustain_onchange_def Let_def)

lemma noteOn_fields:
  "active (noteOn k f vel s) = AList.update k (next_voice s) (active s)"
  "heldKeys (noteOn k f vel s) = heldKeys s"
  "sustainPool (noteOn k f vel s) = sustainPool s"
  "sustain (noteOn k f vel s) = sustain s"
  "next_voice (noteOn k f vel s) = Suc (next_voice s)"
  by (simp_all add: noteOn_def stopVoiceNow_def Let_def split: option.split)

lemma resume_fields:
  "active (resume s) = active s" "heldKeys (resume s) = heldKeys s"
  "sustainPool (resume s) = sustainPool s" "sustain (resume s) = sustain s"
  "next_voice (resume s) = next_voice s" "state (resume s) = state s"
  by (simp_all add: resume_def)

lemma keys_delete: "fst ` set (AList.delete k al) = fst ` set al - {k}"
  by (auto simp: AList.delete_eq)

lemma keys_filter: "fst ` set (filter (\<lambda>(k, v). k \<in> H) al) = fst ` set al \<inter> H"
  by force

lemma consistentI:
  "distinct (map fst (active s)) \<Longrightarrow>
   fst ` set (active s) = set (heldKeys s) \<union> set (sustainPool s) \<Longrightarrow>
   sustain s \<or> sustainPool s = [] \<Longrightarrow> consistent s"
  by (simp add: consistent_def)

lemma consistentD:
  assumes "consistent s"
  shows "distinct (map fst (active s))"
    and "fst ` set (active s) = set (heldKeys s) \<union> set (sustainPool s)"
    and "sustain s \<or> sustainPool s = []"
  using assms by (simp_all add: consistent_def)

lemma consistent_press:
  assumes "consistent s"
  shows "consistent (noteOn k f vel ((resume s)\<lparr>heldKeys := set_add k (heldKeys (resume s))\<rparr>))"
proof (rule consistentI)
  let ?s' = "noteOn k f vel ((resume s)\<lparr>heldKeys := set_add k (heldKeys (resume s))\<rparr>)"
  show "distinct (map fst (active ?s'))"
    using consistentD(1) [OF assms] by (simp add: noteOn_fields resume_fields AList.distinct_update)
  show "fst ` set (active ?s') = set (heldKeys ?s') \<union> set (sustainPool ?s')"
    using consistentD(2) [OF assms] by (simp add: noteOn_fields resume_fields AList.dom_update)
  show "sustain ?s' \<or> sustainPool ?s' = []"
    using consistentD(3) [OF assms] by (simp add: noteOn_fields resume_fields)
qed

lemma consistent_release:
  assumes "consistent s"
  shows "consistent (noteOff k (s\<lparr>heldKeys := set_delete k (heldKeys s)\<rparr>))"
proof (cases "map_of (active s) k")
  case None
  then have "k \<notin> fst ` set (active s)" by (simp add: map_of_eq_None_iff)
  with consistentD(2) [OF assms] have "k \<notin> set (heldKeys s)" by simp
  then show ?thesis using assms None by (simp add: noteOff_def)
next
  case (Some v)
  then have k: "k \<in> fst ` set (active s)" by (metis map_of_eq_None_iff option.distinct(1))
  show ?thesis
  proof (cases "sustain s")
    case True
    then have eq: "noteOff k (s\<lparr>heldKeys := set_delete k (heldKeys s)\<rparr>) =
        s\<lparr>heldKeys := set_delete k (heldKeys s), sustainPool := set_add k (sustainPool s)\<rparr>"
      using Some by (simp add: noteOff_def)
    show ?thesis
      unfolding eq
    proof (rule consistentI)
      show "distinct (map fst (active (s\<lparr>heldKeys := set_delete k (heldKeys s),
              sustainPool := set_add k (sustainPool s)\<rparr>)))"
        using consistentD(1) [OF assms] by simp
      show "fst ` set (active (s\<lparr>heldKeys := set_delete k (heldKeys s),
              sustainPool := set_add k (sustainPool s)\<rparr>)) =
            set (heldKeys (s\<lparr>heldKeys := set_delete k (heldKeys s),
              sustainPool := set_add k (sustainPool s)\<rparr>)) \<union>
            set (sustainPool (s\<lparr>heldKeys := set_delete k (heldKeys s),
              sustainPool := set_add k (sustainPool s)\<rparr>))"
        using consistentD(2) [OF assms] k by auto
      show "sustain (s\<lparr>heldKeys := set_delete k (heldKeys s),
              sustainPool := set_add k (sustainPool s)\<rparr>) \<or>
            sustainPool (s\<lparr>heldKeys := set_delete k (heldKeys s),
              sustainPool := set_add k (sustainPool s)\<rparr>) = []"
        using True by simp
    qed
  next
    case False
    with consistentD(3) [OF assms] have pool: "sustainPool s = []" by simp
    have eq: "noteOff k (s\<lparr>heldKeys := set_delete k (heldKeys s)\<rparr>) =
        s\<lparr>heldKeys := set_delete k (heldKeys s), trace := trace s @ fade_ops v s,
          active := AList.delete k (active s)\<rparr>"
      using Some False by (simp add: noteOff_def fade_ops_def)
    show ?thesis
      unfolding eq
    proof (rule consistentI)
      show "distinct (map fst (active (s\<lparr>heldKeys := set_delete k (heldKeys s),
              trace := trace s @ fade_ops v s, active := AList.delete k (active s)\<rparr>)))"
        using consistentD(1) [OF assms] by (simp add: AList.distinct_delete)
      show "fst ` set (active (s\<lparr>heldKeys := set_delete k (heldKeys s),
              trace := trace s @ fade_ops v s, active := AList.delete k (active s)\<rparr>)) =
            set (heldKeys (s\<lparr>heldKeys := set_delete k (heldKeys s),
              trace := trace s @ fade_ops v s, active := AList.delete k (active s)\<rparr>)) \<union>
            set (sustainPool (s\<lparr>heldKeys := set_delete k (heldKeys s),
              trace := trace s @ fade_ops v s, active := AList.delete k (active s)\<rparr>))"
        using consistentD(2) [OF assms] pool by (simp add: keys_delete)
      show "sustain (s\<lparr>heldKeys := set_delete k (heldKeys s),
              trace := trace s @ fade_ops v s, active := AList.delete k (active s)\<rparr>) \<or>
            sustainPool (s\<lparr>heldKeys := set_delete k (heldKeys s),
              trace := trace s @ fade_ops v s, active := AList.delete k (active s)\<rparr>) = []"
        using pool by simp
    qed
  qed
qed

lemma consistent_sustain_onchange:
  assumes "consistent s"
  shows "consistent (sustain_onchange checked s)"
proof (cases "sustain s \<and> \<not> checked")
  case True
  then have eq: "sustain_onchange checked s = sustain_onchange False s" and on: "sustain s"
    by simp_all
  show ?thesis
    unfolding eq
  proof (rule consistentI)
    show "distinct (map fst (active (sustain_onchange False s)))"
      using consistentD(1) [OF assms] by (simp add: pedal_up(1) [OF on] distinct_map_filter)
    show "fst ` set (active (sustain_onchange False s)) =
          set (heldKeys (sustain_onchange False s)) \<union> set (sustainPool (sustain_onchange False s))"
    proof -
      have "fst ` set (active (sustain_onchange False s)) = fst ` set (active s) \<inter> set (heldKeys s)"
        by (simp only: pedal_up(1) [OF on] keys_filter)
      then show ?thesis
        using consistentD(2) [OF assms] by (auto simp: pedal_up(2,3) [OF on])
    qed
    show "sustain (sustain_onchange False s) \<or> sustainPool (sustain_onchange False s) = []"
      by (simp add: pedal_up [OF on])
  qed
next
  case False
  show ?thesis
    unfolding sustain_onchange_other [OF False]
  proof (rule consistentI)
    show "distinct (map fst (active (s\<lparr>sustain := checked\<rparr>)))"
      using consistentD(1) [OF assms] by simp
    show "fst ` set (active (s\<lparr>sustain := checked\<rparr>)) =
          set (heldKeys (s\<lparr>sustain := checked\<rparr>)) \<union> set (sustainPool (s\<lparr>sustain := checked\<rparr>))"
      using consistentD(2) [OF assms] by simp
    show "sustain (s\<lparr>sustain := checked\<rparr>) \<or> sustainPool (s\<lparr>sustain := checked\<rparr>) = []"
      using consistentD(3) [OF assms] False by auto
  qed
qed

lemma consistent_forceAllOff:
  assumes "consistent s"
  shows "consistent (forceAllOff s)"
proof -
  have "set (heldKeys (forceAllOff s)) = {}"
    using consistentD(2) [OF assms] sweep_held [of "{}" "map fst (active s)" s]
    by (auto simp: forceAllOff_sweep)
  then show ?thesis
    using forceAllOff_fields [of s] by (simp add: consistent_def)
qed

lemma consistent_state: "consistent s \<Longrightarrow> consistent (s\<lparr>state := st\<rparr>)"
  by (simp add: consistent_def)

lemma consistent_keydown:
  assumes "consistent s"
  shows "consistent (keydown e s)"
proof -
  have press: "\<And>k f vel. consistent
      (noteOn k f vel ((resume s)\<lparr>heldKeys := set_add k (heldKeys (resume s))\<rparr>))"
    by (rule consistent_press [OF assms])
  have branch: "consistent (case map_of KEY_MAP (key_upper e) of
        None \<Rightarrow> s
      | Some semis \<Rightarrow>
          (let base = baseOct (state s) + (if shiftKey e then 1 else 0);
               midi = (base + 1) * 12 + semis
           in case midiToNote midi of
                NaN \<Rightarrow> s
              | Str note \<Rightarrow>
                  if note \<notin> set (piano_notes (state s)) then s
                  else (let s1 = resume s;
                            k = key_of (Some midi);
                            s2 = s1\<lparr>heldKeys := set_add k (heldKeys s1)\<rparr>
                        in noteOn k (midiToFreq (real_of_int midi)) 0.95 s2)))"
    by (simp only: Let_def split: option.split js_value.split if_split)
       (simp only: assms press simp_thms)
  show ?thesis
    unfolding keydown_def
    by (simp only: assms consistent_state branch if_split simp_thms split: if_split)
qed

lemma consistent_handle:
  assumes "consistent s"
  shows "consistent (handle e s)"
proof (cases e)
  case (Activate nt vel)
  then show ?thesis using consistent_press [OF assms] by (simp add: activate_def Let_def)
next
  case (Deactivate nt)
  then show ?thesis using consistent_release [OF assms] by (simp add: deactivate_def Let_def)
next
  case (KeyDown ev)
  then show ?thesis using consistent_keydown [OF assms] by simp
next
  case (KeyUp ev)
  then show ?thesis using consistent_release [OF assms]
    by (simp add: keyup_def Let_def assms split: option.split)
next
  case (SustainChange checked)
  then show ?thesis using consistent_sustain_onchange [OF assms] by simp
next
  case ForceSilence
  then show ?thesis using consistent_forceAllOff [OF assms] by (simp add: forceSilence_def)
next
  case (Controls st)
  then show ?thesis using assms by (simp add: consistent_def)
next
  case (TimeoutFires v)
  then show ?thesis using assms by (simp add: consistent_def stopVoiceNow_def)
next
  case (ClockAdvance t)
  then show ?thesis using assms by (simp add: consistent_def)
qed

lemma consistent_initial: "consistent initial"
  by (simp add: consistent_def initial_def)

lemma consistent_run: "consistent s \<Longrightarrow> consistent (run es s)"
  unfolding run_def by (induction es arbitrary: s) (simp_all add: consistent_handle)


lemma reachable_consistent: "consistent (run es initial)"
  by (rule consistent_run [OF consistent_initial])

lemma sweep_trace_grows:
  "set (trace s) \<subseteq> set (trace (fold (\<lambda>k st. if k \<in> H then st else forceOff k st) ks s))"
proof (induction ks arbitrary: s)
  case Nil
  then show ?case by simp
next
  case (Cons k ks)
  have "set (trace s) \<subseteq> set (trace (if k \<in> H then s else forceOff k s))"
    by (simp add: forceOff_trace)
  also have "\<dots> \<subseteq> set (trace (fold (\<lambda>k st. if k \<in> H then st else forceOff k st) ks
                              (if k \<in> H then s else forceOff k s)))"
    by (rule Cons.IH)
  finally show ?case by simp
qed

lemma sweep_fades:
  assumes "k \<in> set ks" "k \<notin> H" "map_of (active s) k = Some v"
  shows "set (fade_ops v s) \<subseteq>
         set (trace (fold (\<lambda>k st. if k \<in> H then st else forceOff k st) ks s))"
  using assms
proof (induction ks arbitrary: s)
  case Nil
  then show ?case by simp
next
  case (Cons k0 ks)
  show ?case
  proof (cases "k0 = k")
    case True
    have "set (fade_ops v s) \<subseteq> set (trace (forceOff k s))"
      using Cons.prems(3) by (simp add: forceOff_trace)
    also have "\<dots> \<subseteq> set (trace (fold (\<lambda>k st. if k \<in> H then st else forceOff k st) ks
                              (forceOff k s)))"
      by (rule sweep_trace_grows)
    finally show ?thesis using True Cons.prems(2) by simp
  next
    case False
    let ?s' = "if k0 \<in> H then s else forceOff k0 s"
    have "k \<in> set ks" using Cons.prems(1) False by simp
    moreover have "map_of (active ?s') k = Some v"
      using Cons.prems(3) False by (simp add: forceOff_active AList.delete_conv')
    ultimately have "set (fade_ops v ?s') \<subseteq>
        set (trace (fold (\<lambda>k st. if k \<in> H then st else forceOff k st) ks ?s'))"
      using Cons.prems(2) by (intro Cons.IH)
    moreover have "fade_ops v ?s' = fade_ops v s"
      by (rule fade_ops_cong) (simp_all add: forceOff_frame)
    ultimately show ?thesis by simp
  qed
qed

lemma pedal_up_fades:
  assumes "sustain s" "map_of (active s) k = Some v" "k \<notin> set (heldKeys s)"
  shows "map_of (active (sustain_onchange False s)) k = None"
    and "set (fade_ops v s) \<subseteq> set (trace (sustain_onchange False s))"
proof -
  let ?s1 = "s\<lparr>sustain := False\<rparr>"
  have eq: "sustain_onchange False s =
      (fold (\<lambda>k st. if k \<in> set (heldKeys s) then st else forceOff k st)
         (map fst (active s)) ?s1)\<lparr>sustainPool := []\<rparr>"
    using assms(1) pedal_sweep_static [of "map fst (active s)" ?s1]
    by (simp add: sustain_onchange_def)
  have "k \<notin> fst ` set (active (sustain_onchange False s))"
    using assms(3) by (simp only: pedal_up(1) [OF assms(1)] keys_filter) simp
  then show "map_of (active (sustain_onchange False s)) k = None"
    by (simp add: map_of_eq_None_iff)
  have k: "k \<in> set (map fst (active s))"
    using assms(2) by (metis map_of_eq_None_iff option.distinct(1) set_map)
  have "set (fade_ops v ?s1) \<subseteq>
        set (trace (fold (\<lambda>k st. if k \<in> set (heldKeys s) then st else forceOff k st)
                      (map fst (active s)) ?s1))"
    using assms(2) by (intro sweep_fades [OF k assms(3)]) simp
  moreover have "fade_ops v ?s1 = fade_ops v s" by (simp add: fade_ops_def)
  ultimately show "set (fade_ops v s) \<subseteq> set (trace (sustain_onchange False s))"
    by (simp add: eq)
qed

section \<open>Re-trigger of a sounding key\<close>

lemma key_m60: "key_of (Some 60) = ''m60''"
  by (simp add: key_of_def show_int_def show_nat.simps digit_char_def)

lemma noteToMidi_C4: "noteToMidi ''C4'' = Some 60"
  by (simp add: noteToMidi_def is_letter_def is_digit_def digit_val_def base_of_def)

lemma one_entry:
  "distinct (map fst al) \<Longrightarrow> map_of al k = Some v \<Longrightarrow>
   filter (\<lambda>(k', v'). k' = k) al = [(k, v)]"
proof (induction al)
  case Nil
  then show ?case by simp
next
  case (Cons p al)
  show ?case
  proof (cases "fst p = k")
    case True
    then have "k \<notin> fst ` set al" using Cons.prems(1) by auto
    then have "filter (\<lambda>(k', v'). k' = k) al = []" by (force simp: filter_empty_conv)
    then show ?thesis using True Cons.prems(2) by (cases p) simp
  next
    case False
    then show ?thesis using Cons by (cases p) simp
  qed
qed

text \<open>
  In \<^verbatim>\<open>part_000\<close>, \<^verbatim>\<open>noteOn\<close> for a key that has a voice stops that voice at once (the
  three calls of \<^verbatim>\<open>stopVoiceNow\<close>, no decay and no timer) before it makes the new voice,
  and the new voice takes the key's entry in the table: the table has one entry for the
  key, the new voice.
\<close>

lemma noteOn_retrigger_stops_previous:
  assumes "map_of (active s) k = Some prev"
  shows "trace (noteOn k f vel s) =
           trace s @ [OscStop prev, OscDisconnect prev, GainDisconnect prev]
             @ start_ops (next_voice s) f vel s
       \<and> map_of (active (noteOn k f vel s)) k = Some (next_voice s)
       \<and> map fst (active (noteOn k f vel s)) = map fst (active s)
       \<and> (distinct (map fst (active s)) \<longrightarrow>
            filter (\<lambda>(k', v). k' = k) (active (noteOn k f vel s)) = [(k, next_voice s)])"
proof -
  have k: "k \<in> set (map fst (active s))"
    using assms by (metis map_of_eq_None_iff option.distinct(1) set_map)
  have tr: "trace (noteOn k f vel s) =
           trace s @ [OscStop prev, OscDisconnect prev, GainDisconnect prev]
             @ start_ops (next_voice s) f vel s"
    using assms by (simp add: noteOn_def stopVoiceNow_def Let_def start_ops_def)
  have ac: "active (noteOn k f vel s) = AList.update k (next_voice s) (active s)"
    by (rule noteOn_fields)
  have keys: "map fst (active (noteOn k f vel s)) = map fst (active s)"
    using k by (simp add: ac AList.update_keys)
  have one: "filter (\<lambda>(k', v). k' = k) (active (noteOn k f vel s)) = [(k, next_voice s)]"
    if d: "distinct (map fst (active s))"
  proof -
    have "distinct (map fst (AList.update k (next_voice s) (active s)))"
      using d by (rule AList.distinct_update)
    moreover have "map_of (AList.update k (next_voice s) (active s)) k = Some (next_voice s)"
      by (simp add: AList.update_conv')
    ultimately show ?thesis
      unfolding ac by (rule one_entry)
  qed
  show ?thesis using tr keys one by (simp add: ac AList.update_conv')
qed

lemma noteOn_retrigger_example:
  "trace (noteOn ''m60'' 261.63 1 (noteOn ''m60'' 261.63 1 initial)) =
       [CreateOscillator 0, CreateGain 0, SetOscType 0 ''triangle'', SetFrequency 0 261.63,
        SetValueAtTime 0 0 0, LinearRampToValueAtTime 0 0.7 0.012, Connect 0, OscStart 0,
        OscStop 0, OscDisconnect 0, GainDisconnect 0,
        CreateOscillator 1, CreateGain 1, SetOscType 1 ''triangle'', SetFrequency 1 261.63,
        SetValueAtTime 1 0 0, LinearRampToValueAtTime 1 0.7 0.012, Connect 1, OscStart 1]"
  by (simp add: noteOn_def stopVoiceNow_def start_ops_def initial_def initial_settings_def Let_def)

text \<open>
  C1 does not hold in \<^verbatim>\<open>src/piano.js\<close>: its \<^verbatim>\<open>noteOn\<close> stores the new voice over the old
  one and never stops the old one. After \<^verbatim>\<open>activateKey\<close> twice on the key C4 from the
  start (a \<^verbatim>\<open>pointerdown\<close> and then a \<^verbatim>\<open>pointerenter\<close> with a button held), the calls
  made are the eight that start voice 0 and the eight that start voice 1: voice 0 is
  started, is never stopped, and is no longer in the table.
\<close>

theorem piano_noteOn_retrigger_keeps_previous:
  "active (piano_activateKey ''C4'' 1 (piano_activateKey ''C4'' 1 initial)) = [(''m60'', 1)]
   \<and> trace (piano_activateKey ''C4'' 1 (piano_activateKey ''C4'' 1 initial)) =
       [CtxResume,
        CreateOscillator 0, CreateGain 0, SetOscType 0 ''triangle'', SetFrequency 0 (midiToFreq 60),
        SetValueAtTime 0 0 0, LinearRampToValueAtTime 0 0.7 0.012, Connect 0, OscStart 0,
        CreateOscillator 1, CreateGain 1, SetOscType 1 ''triangle'', SetFrequency 1 (midiToFreq 60),
        SetValueAtTime 1 0 0, LinearRampToValueAtTime 1 0.7 0.012, Connect 1, OscStart 1]
   \<and> OscStart 0 \<in> set (trace (piano_activateKey ''C4'' 1 (piano_activateKey ''C4'' 1 initial)))
   \<and> OscStop 0 \<notin> set (trace (piano_activateKey ''C4'' 1 (piano_activateKey ''C4'' 1 initial)))"
  by (simp add: piano_activateKey_def piano_noteOn_def resume_def noteToMidi_C4 key_m60 freq_of_def
      start_ops_def initial_def initial_settings_def Let_def)

section \<open>The safety handlers\<close>

text \<open>
  In \<^verbatim>\<open>part_000\<close>, \<^verbatim>\<open>forceSilence\<close> (the handler of \<^verbatim>\<open>pointerup\<close>, \<^verbatim>\<open>touchend\<close>,
  \<^verbatim>\<open>touchcancel\<close> and of the 3-second interval) leaves no voice in the table and no key in
  the sustain pool, whatever the pedal; every voice of the table gets its release.
\<close>

lemma forceSilence_silences_all:
  "active (forceSilence s) = [] \<and> sustainPool (forceSilence s) = []
   \<and> (distinct (map fst (active s)) \<longrightarrow>
        trace (forceSilence s) = trace s @ concat (map (\<lambda>(k, v). fade_ops v s) (active s)))"
  by (simp add: forceSilence_def forceAllOff_fields forceAllOff_trace)

text \<open>
  In \<^verbatim>\<open>src/piano.js\<close> the same handlers call \<^verbatim>\<open>noteOff\<close>, which honours sustain: while the
  pedal is down they remove no voice and make no call on the audio graph.
\<close>

lemma piano_handlers_under_sustain:
  assumes "sustain s"
  shows "active (fold noteOff ks s) = active s \<and> trace (fold noteOff ks s) = trace s
         \<and> sustain (fold noteOff ks s)"
  using assms
proof (induction ks arbitrary: s)
  case Nil
  then show ?case by simp
next
  case (Cons k ks)
  have "active (noteOff k s) = active s \<and> trace (noteOff k s) = trace s \<and> sustain (noteOff k s)"
    using Cons.prems by (simp add: noteOff_def split: option.split)
  then show ?case using Cons.IH [of "noteOff k s"] by simp
qed

text \<open>
  C2 does not hold in \<^verbatim>\<open>src/piano.js\<close>: with the pedal down and a voice sounding for
  the key C4, the \<^verbatim>\<open>pointerup\<close> handler of the window and the 3-second interval (here
  with every gain reported as 1) only add the key to the sustain pool; the voice stays in
  the table and no release is scheduled.
\<close>

theorem piano_safety_handlers_honour_sustain:
  "let s = piano_activateKey ''C4'' 1 (piano_sustain_onchange True initial)
   in sustain s \<and> active s = [(''m60'', 0)]
      \<and> piano_window_pointerup s = s\<lparr>sustainPool := [''m60'']\<rparr>
      \<and> piano_interval (\<lambda>v. 1) s = s\<lparr>sustainPool := [''m60'']\<rparr>
      \<and> active (piano_window_pointerup s) = [(''m60'', 0)]
      \<and> trace (piano_window_pointerup s) = trace s"
  by (simp add: piano_activateKey_def piano_noteOn_def resume_def noteToMidi_C4 key_m60 freq_of_def
      piano_sustain_onchange_def piano_window_pointerup_def
      piano_interval_def noteOff_def set_add_def start_ops_def initial_def initial_settings_def
      Let_def)

text \<open>
  C3. From every state (any pedal state, any table, held keys and sustain pool),
  \<^verbatim>\<open>forceAllOff\<close> leaves the voice table empty and the sustain pool empty.
\<close>

theorem forceAllOff_empties:
  "active (forceAllOff s) = [] \<and> sustainPool (forceAllOff s) = []"
  by (rule forceAllOff_fields)

theorem forceAllOff_empties_witness:
  "active (forceAllOff (initial\<lparr>sustain := True, active := [(''m60'', 0), (''m64'', 1)],
      heldKeys := [''m60''], sustainPool := [''m64''], next_voice := 2\<rparr>)) = []
   \<and> sustainPool (forceAllOff (initial\<lparr>sustain := True, active := [(''m60'', 0), (''m64'', 1)],
      heldKeys := [''m60''], sustainPool := [''m64''], next_voice := 2\<rparr>)) = []"
  using forceAllOff_empties [of "initial\<lparr>sustain := True, active := [(''m60'', 0), (''m64'', 1)],
      heldKeys := [''m60''], sustainPool := [''m64''], next_voice := 2\<rparr>"]
  by simp

section \<open>Release under the pedal\<close>

text \<open>
  C4. For a key \<open>k\<close> with a sounding voice \<open>v\<close>, \<^verbatim>\<open>noteOff(k)\<close> while the pedal is down
  adds \<open>k\<close> to the sustain pool and changes nothing else: the table and the calls made
  are as before, so the voice stays in the table and no amplitude automation is issued.
  The voice is released later by \<^verbatim>\<open>forceOff(k)\<close>, or by the pedal going up when \<open>k\<close> is
  not held: either removes it from the table and schedules its release.
\<close>

theorem noteOff_under_sustain:
  assumes "sustain s" and "map_of (active s) k = Some v"
  shows "noteOff k s = s\<lparr>sustainPool := set_add k (sustainPool s)\<rparr>
       \<and> set (sustainPool (noteOff k s)) = insert k (set (sustainPool s))
       \<and> active (noteOff k s) = active s
       \<and> trace (noteOff k s) = trace s
       \<and> map_of (active (forceOff k (noteOff k s))) k = None
       \<and> trace (forceOff k (noteOff k s)) = trace s @ fade_ops v s
       \<and> (k \<notin> set (heldKeys s) \<longrightarrow>
            map_of (active (sustain_onchange False (noteOff k s))) k = None
            \<and> set (fade_ops v s) \<subseteq> set (trace (sustain_onchange False (noteOff k s))))"
proof -
  let ?s' = "s\<lparr>sustainPool := set_add k (sustainPool s)\<rparr>"
  have eq: "noteOff k s = ?s'" using assms by (simp add: noteOff_def)
  have fade: "fade_ops v ?s' = fade_ops v s" by (simp add: fade_ops_def)
  have on: "sustain ?s'" and v: "map_of (active ?s') k = Some v" using assms by simp_all
  have "map_of (active (forceOff k ?s')) k = None"
    by (simp add: forceOff_active)
  moreover have "trace (forceOff k ?s') = trace s @ fade_ops v s"
    using v by (simp add: forceOff_trace fade)
  moreover have "k \<notin> set (heldKeys s) \<longrightarrow>
            map_of (active (sustain_onchange False ?s')) k = None
            \<and> set (fade_ops v s) \<subseteq> set (trace (sustain_onchange False ?s'))"
    using pedal_up_fades [OF on v] fade by simp
  ultimately show ?thesis unfolding eq by simp
qed

theorem noteOff_under_sustain_witness:
  "sustain (initial\<lparr>sustain := True, active := [(''m60'', 0)], next_voice := 1\<rparr>)
   \<and> map_of (active (initial\<lparr>sustain := True, active := [(''m60'', 0)], next_voice := 1\<rparr>))
         ''m60'' = Some 0
   \<and> ''m60'' \<notin> set (heldKeys (initial\<lparr>sustain := True, active := [(''m60'', 0)],
         next_voice := 1\<rparr>))
   \<and> noteOff ''m60'' (initial\<lparr>sustain := True, active := [(''m60'', 0)], next_voice := 1\<rparr>) =
       initial\<lparr>sustain := True, active := [(''m60'', 0)], next_voice := 1,
         sustainPool := [''m60'']\<rparr>
   \<and> map_of (active (sustain_onchange False
         (noteOff ''m60'' (initial\<lparr>sustain := True, active := [(''m60'', 0)], next_voice := 1\<rparr>))))
         ''m60'' = None"
proof -
  let ?s = "initial\<lparr>sustain := True, active := [(''m60'', 0)], next_voice := 1\<rparr>"
  have h1: "sustain ?s" by simp
  have h2: "map_of (active ?s) ''m60'' = Some 0" by simp
  have h3: "''m60'' \<notin> set (heldKeys ?s)" by (simp add: initial_def)
  note t = noteOff_under_sustain [OF h1 h2]
  have "noteOff ''m60'' ?s = ?s\<lparr>sustainPool := set_add ''m60'' (sustainPool ?s)\<rparr>"
    using t by (rule conjunct1)
  moreover have "?s\<lparr>sustainPool := set_add ''m60'' (sustainPool ?s)\<rparr> =
      initial\<lparr>sustain := True, active := [(''m60'', 0)], next_voice := 1,
         sustainPool := [''m60'']\<rparr>"
    by (simp add: set_add_def initial_def)
  moreover have "map_of (active (sustain_onchange False (noteOff ''m60'' ?s))) ''m60'' = None"
    using t h3 by blast
  ultimately show ?thesis using h1 h2 h3 by (simp only: simp_thms)
qed

section \<open>The pedal going up\<close>

text \<open>
  In \<^verbatim>\<open>part_000\<close>, in a state the handlers can reach (where the keys of the table are
  the held keys and the pool keys), the pedal going up releases exactly the keys of the
  sustain pool that are not held, each with the release of \<^verbatim>\<open>forceOff\<close>, keeps the voices
  of the held keys, and clears the pool. The handler loops over the keys of the table
  that are not held; in a reachable state these are the pool keys that are not held.
\<close>

lemma pedal_up_releases_pool_not_held:
  assumes "consistent s" and "sustain s"
  shows "fst ` set (active s) - fst ` set (active (sustain_onchange False s)) =
           set (sustainPool s) - set (heldKeys s)
       \<and> active (sustain_onchange False s) = filter (\<lambda>(k, v). k \<in> set (heldKeys s)) (active s)
       \<and> trace (sustain_onchange False s) =
           trace s @ concat (map (\<lambda>(k, v). fade_ops v s)
                               (filter (\<lambda>(k, v). k \<notin> set (heldKeys s)) (active s)))
       \<and> sustainPool (sustain_onchange False s) = []
       \<and> heldKeys (sustain_onchange False s) = heldKeys s"
proof -
  have "fst ` set (active (sustain_onchange False s)) = fst ` set (active s) \<inter> set (heldKeys s)"
    by (simp only: pedal_up(1) [OF assms(2)] keys_filter)
  then have "fst ` set (active s) - fst ` set (active (sustain_onchange False s)) =
           set (sustainPool s) - set (heldKeys s)"
    using consistentD(2) [OF assms(1)] by auto
  then show ?thesis
    using pedal_up [OF assms(2)] pedal_up_trace [OF assms(2) consistentD(1) [OF assms(1)]]
    by simp
qed

text \<open>
  The scenario of the specification in \<^verbatim>\<open>part_000\<close>: pedal down, the key C4 pressed,
  released, pressed again, pedal up. The voice of the second press stays in the table.
\<close>

lemma repressed_key_survives_pedal_up:
  "active (run [SustainChange True, Activate ''C4'' 1, Deactivate ''C4'', Activate ''C4'' 1,
                SustainChange False] initial) = [(''m60'', 1)]
   \<and> heldKeys (run [SustainChange True, Activate ''C4'' 1, Deactivate ''C4'', Activate ''C4'' 1,
                SustainChange False] initial) = [''m60'']
   \<and> sustainPool (run [SustainChange True, Activate ''C4'' 1, Deactivate ''C4'', Activate ''C4'' 1,
                SustainChange False] initial) = []"
  by (simp add: run_def activate_def deactivate_def sustain_onchange_def noteOn_def noteOff_def
      forceOff_def stopVoiceNow_def resume_def set_add_def set_delete_def start_ops_def
      noteToMidi_C4 key_m60 initial_def Let_def)

text \<open>
  C5 does not hold in \<^verbatim>\<open>src/piano.js\<close>, which has no set of held keys: the pedal going up
  calls \<^verbatim>\<open>noteOff\<close> for every key of the sustain pool. In the same scenario (pedal down,
  the key C4 pressed, released, pressed again, pedal up) the voice of the second press is
  released and the table is left empty.
\<close>

theorem piano_pedal_up_releases_repressed_key:
  "let s1 = piano_activateKey ''C4'' 1 (piano_sustain_onchange True initial);
       s2 = piano_deactivateKey ''C4'' s1;
       s3 = piano_activateKey ''C4'' 1 s2;
       s4 = piano_sustain_onchange False s3
   in active s2 = [(''m60'', 0)] \<and> sustainPool s2 = [''m60''] \<and> active s3 = [(''m60'', 1)]
      \<and> active s4 = []
      \<and> trace s4 = trace s3 @ [CancelScheduledValues 1 0, SetTargetAtTime 1 0 0 (0.32 / 3),
                                SetTimeout 1 370]"
  by (simp add: piano_activateKey_def piano_deactivateKey_def piano_noteOn_def resume_def
      noteToMidi_C4 key_m60 freq_of_def piano_sustain_onchange_def noteOff_def set_add_def
      fade_ops_def start_ops_def initial_def initial_settings_def Let_def)

section \<open>Forced release of one key\<close>

lemma consistent_forceOff_clears:
  assumes "consistent s"
  shows "k \<notin> set (heldKeys (forceOff k s)) \<and> k \<notin> set (sustainPool (forceOff k s))"
proof (cases "map_of (active s) k")
  case None
  then have "k \<notin> fst ` set (active s)" by (simp add: map_of_eq_None_iff)
  then show ?thesis using consistentD(2) [OF assms] None by (simp add: forceOff_None)
next
  case (Some v)
  then show ?thesis by (simp add: forceOff_Some)
qed

text \<open>
  C6. In every state that the handlers reach from the start, and for every key \<open>k\<close>,
  with a voice or without one, \<open>k\<close> is in neither the held keys nor the sustain pool
  after \<^verbatim>\<open>forceOff(k)\<close>, and the pedal is as it was: the forced release does not look at
  the pedal. (\<^verbatim>\<open>forceOff\<close> returns at once for a key with no voice; in a reachable state
  such a key is in neither set.) In any state at all, for a key \<open>k\<close> that has a voice
  \<open>v\<close>, \<^verbatim>\<open>forceOff(k)\<close> removes \<open>k\<close> from the held keys, from the sustain pool and
  from the table and schedules the release of \<open>v\<close>.
\<close>

theorem forceOff_held_and_pool:
  "k \<notin> set (heldKeys (forceOff k (run es initial)))
   \<and> k \<notin> set (sustainPool (forceOff k (run es initial)))
   \<and> sustain (forceOff k (run es initial)) = sustain (run es initial)
   \<and> (\<forall>v. map_of (active s) k = Some v \<longrightarrow>
          k \<notin> set (heldKeys (forceOff k s)) \<and> k \<notin> set (sustainPool (forceOff k s))
          \<and> map_of (active (forceOff k s)) k = None
          \<and> trace (forceOff k s) = trace s @ fade_ops v s
          \<and> sustain (forceOff k s) = sustain s)"
  using consistent_forceOff_clears [OF reachable_consistent, of k es]
  by (simp add: forceOff_Some forceOff_frame)

text \<open>
  Three reachable states: at the start (no voice for the key); pedal down, C4 pressed and
  released (the key is in the sustain pool); pedal up, C4 pressed (the key is held).
\<close>

theorem forceOff_held_and_pool_witness:
  "''m60'' \<notin> set (heldKeys (forceOff ''m60'' (run [] initial)))
   \<and> sustain (run [SustainChange True, Activate ''C4'' 1, Deactivate ''C4''] initial)
   \<and> sustainPool (run [SustainChange True, Activate ''C4'' 1, Deactivate ''C4''] initial) = [''m60'']
   \<and> ''m60'' \<notin> set (sustainPool (forceOff ''m60''
         (run [SustainChange True, Activate ''C4'' 1, Deactivate ''C4''] initial)))
   \<and> \<not> sustain (run [Activate ''C4'' 1] initial)
   \<and> heldKeys (run [Activate ''C4'' 1] initial) = [''m60'']
   \<and> map_of (active (run [Activate ''C4'' 1] initial)) ''m60'' = Some 0
   \<and> ''m60'' \<notin> set (heldKeys (forceOff ''m60'' (run [Activate ''C4'' 1] initial)))
   \<and> map_of (active (forceOff ''m60'' (run [Activate ''C4'' 1] initial))) ''m60'' = None"
proof -
  let ?p = "run [SustainChange True, Activate ''C4'' 1, Deactivate ''C4''] initial"
  let ?h = "run [Activate ''C4'' 1] initial"
  have p: "sustain ?p \<and> sustainPool ?p = [''m60'']"
    by (simp add: run_def activate_def deactivate_def sustain_onchange_def noteOn_def noteOff_def
        resume_def set_add_def set_delete_def start_ops_def noteToMidi_C4 key_m60 initial_def Let_def)
  have h: "\<not> sustain ?h \<and> heldKeys ?h = [''m60''] \<and> map_of (active ?h) ''m60'' = Some 0"
    by (simp add: run_def activate_def noteOn_def resume_def set_add_def start_ops_def
        noteToMidi_C4 key_m60 initial_def Let_def)
  have a: "''m60'' \<notin> set (heldKeys (forceOff ''m60'' (run [] initial)))"
    using forceOff_held_and_pool [of "''m60''" "[]" initial] by blast
  have b: "''m60'' \<notin> set (sustainPool (forceOff ''m60'' ?p))"
    using forceOff_held_and_pool
      [of "''m60''" "[SustainChange True, Activate ''C4'' 1, Deactivate ''C4'']" initial]
    by blast
  have c: "''m60'' \<notin> set (heldKeys (forceOff ''m60'' ?h))
           \<and> map_of (active (forceOff ''m60'' ?h)) ''m60'' = None"
    using forceOff_held_and_pool [of "''m60''" "[Activate ''C4'' 1]" ?h] h by blast
  show ?thesis using p h a b c by (simp only: simp_thms)
qed

section \<open>Release twice\<close>

text \<open>
  C7. \<^verbatim>\<open>noteOff\<close> for a key with no voice returns the state as it is: a no-op that makes
  no call and cannot fail. With the pedal up, \<^verbatim>\<open>noteOff(k)\<close> twice in a row is
  \<^verbatim>\<open>noteOff(k)\<close> once; for a key with a voice \<open>v\<close> the first call removes the voice from
  the table and schedules one release (one cancel, one decay to 0, one timer), and the
  second call adds nothing.
\<close>

theorem noteOff_twice:
  "(map_of (active s) k = None \<longrightarrow> noteOff k s = s)
   \<and> (\<not> sustain s \<longrightarrow> noteOff k (noteOff k s) = noteOff k s)
   \<and> (\<forall>v. \<not> sustain s \<and> map_of (active s) k = Some v \<longrightarrow>
         map_of (active (noteOff k s)) k = None
         \<and> trace (noteOff k s) =
             trace s @ [CancelScheduledValues v (currentTime s),
                        SetTargetAtTime v 0 (currentTime s) (max 0.02 (release (state s) / 1000) / 3),
                        SetTimeout v (max 0.02 (release (state s) / 1000) * 1000 + 50)]
         \<and> trace (noteOff k (noteOff k s)) = trace (noteOff k s))"
proof -
  have idem: "noteOff k (noteOff k s) = noteOff k s" if up: "\<not> sustain s"
  proof (cases "map_of (active s) k")
    case None
    then show ?thesis by (simp add: noteOff_None)
  next
    case (Some v)
    then show ?thesis using up by (simp add: noteOff_up noteOff_None)
  qed
  show ?thesis
    using idem by (auto simp: noteOff_None noteOff_up fade_ops_def Let_def)
qed

theorem noteOff_twice_witness:
  "noteOff ''m60'' (noteOff ''m60'' (initial\<lparr>active := [(''m60'', 0)], next_voice := 1\<rparr>)) =
     noteOff ''m60'' (initial\<lparr>active := [(''m60'', 0)], next_voice := 1\<rparr>)
   \<and> trace (noteOff ''m60'' (noteOff ''m60'' (initial\<lparr>active := [(''m60'', 0)], next_voice := 1\<rparr>))) =
       [CancelScheduledValues 0 0, SetTargetAtTime 0 0 0 (0.32 / 3), SetTimeout 0 370]
   \<and> noteOff ''m62'' (initial\<lparr>active := [(''m60'', 0)], next_voice := 1\<rparr>) =
       initial\<lparr>active := [(''m60'', 0)], next_voice := 1\<rparr>"
proof -
  let ?s = "initial\<lparr>active := [(''m60'', 0)], next_voice := 1\<rparr>"
  have h1: "\<not> sustain ?s" by (simp add: initial_def)
  have h2: "map_of (active ?s) ''m60'' = Some 0" by simp
  have h3: "map_of (active ?s) ''m62'' = None" by simp
  show ?thesis
    using noteOff_twice [of ?s "''m60''"] noteOff_twice [of ?s "''m62''"] h1 h2 h3
    by (simp add: initial_def initial_settings_def)
qed

section \<open>A note without a pitch\<close>

lemma noteToMidi_C10: "noteToMidi ''C10'' = None"
  by (simp add: noteToMidi_def is_letter_def is_digit_def)

text \<open>
  What \<^verbatim>\<open>activate\<close> does with a note for which \<^verbatim>\<open>noteToMidi\<close> returns \<^verbatim>\<open>null\<close>: it does not
  look at the result. It derives the key \<^verbatim>\<open>'m' + null\<close>, that is \<^verbatim>\<open>mnull\<close>, and the
  frequency \<^verbatim>\<open>midiToFreq(null)\<close>, holds the key and starts a voice for it. The handler of
  \<^verbatim>\<open>keydown\<close>, the other path to \<^verbatim>\<open>noteOn\<close>, returns before \<^verbatim>\<open>noteOn\<close> for a key it has
  no pitch for.
\<close>

lemma activate_unmapped_note:
  assumes "noteToMidi nt = None"
  shows "activate nt vel s =
           noteOn ''mnull'' (midiToFreq 0) vel
             ((resume s)\<lparr>heldKeys := set_add ''mnull'' (heldKeys (resume s))\<rparr>)
       \<and> ''mnull'' \<in> set (heldKeys (activate nt vel s))
       \<and> map_of (active (activate nt vel s)) ''mnull'' = Some (next_voice s)
       \<and> OscStart (next_voice s) \<in> set (trace (activate nt vel s))
       \<and> sustainPool (activate nt vel s) = sustainPool s"
proof -
  have eq: "activate nt vel s =
           noteOn ''mnull'' (midiToFreq 0) vel
             ((resume s)\<lparr>heldKeys := set_add ''mnull'' (heldKeys (resume s))\<rparr>)"
    using assms by (simp add: activate_def key_of_def freq_of_def Let_def)
  have "OscStart (next_voice s) \<in>
        set (trace (noteOn ''mnull'' (midiToFreq 0) vel
             ((resume s)\<lparr>heldKeys := set_add ''mnull'' (heldKeys (resume s))\<rparr>)))"
    by (simp add: noteOn_def stopVoiceNow_def start_ops_def resume_fields Let_def
        split: option.split)
  then show ?thesis
    unfolding eq by (simp add: noteOn_fields resume_fields AList.update_conv')
qed

lemma keydown_unmapped_key:
  "map_of KEY_MAP (key_upper e) = None \<Longrightarrow> key_upper e \<noteq> ''Z'' \<Longrightarrow> key_upper e \<noteq> ''X'' \<Longrightarrow>
   keydown e s = s"
  by (simp add: keydown_def)

lemma piano_has_C10:
  "''C10'' \<in> set (piano_notes (initial_settings\<lparr>baseOct := 9\<rparr>))"
proof -
  have "(''C10'', True) \<in> set (built_notes (initial_settings\<lparr>baseOct := 9\<rparr>))"
    by (simp add: built_notes_def octave_notes_def initial_settings_def upt_rec
        show_int_def show_nat.simps digit_char_def)
  then have "''C10'' \<in> set (map fst (filter snd (built_notes (initial_settings\<lparr>baseOct := 9\<rparr>))))"
    by force
  then show ?thesis by (simp add: piano_notes_def Let_def)
qed

text \<open>
  C8 does not hold in the code: \<^verbatim>\<open>activate\<close> rejects nothing. With the base octave set to
  9 by its control, the page has keys for the octaves 9 and 10; the name \<^verbatim>\<open>C10\<close> of one of
  them does not match the pattern of \<^verbatim>\<open>noteToMidi\<close>, which returns \<^verbatim>\<open>null\<close>. A press on
  that key holds \<^verbatim>\<open>mnull\<close> and starts a voice for it in the table.
\<close>

theorem activate_unmapped_note_not_rejected:
  "''C10'' \<in> set (piano_notes (state (run [Controls (initial_settings\<lparr>baseOct := 9\<rparr>)] initial)))
   \<and> noteToMidi ''C10'' = None
   \<and> active (run [Controls (initial_settings\<lparr>baseOct := 9\<rparr>), Activate ''C10'' 1] initial) =
       [(''mnull'', 0)]
   \<and> heldKeys (run [Controls (initial_settings\<lparr>baseOct := 9\<rparr>), Activate ''C10'' 1] initial) =
       [''mnull'']
   \<and> OscStart 0 \<in>
       set (trace (run [Controls (initial_settings\<lparr>baseOct := 9\<rparr>), Activate ''C10'' 1] initial))
   \<and> active (run [Controls (initial_settings\<lparr>baseOct := 9\<rparr>), Activate ''C10'' 1] initial) \<noteq>
       active (run [Controls (initial_settings\<lparr>baseOct := 9\<rparr>)] initial)"
proof -
  have "state (run [Controls (initial_settings\<lparr>baseOct := 9\<rparr>)] initial) =
        initial_settings\<lparr>baseOct := 9\<rparr>"
    by (simp add: run_def)
  then have "''C10'' \<in>
      set (piano_notes (state (run [Controls (initial_settings\<lparr>baseOct := 9\<rparr>)] initial)))"
    using piano_has_C10 by (simp only:)
  then show ?thesis
    by (simp add: run_def noteToMidi_C10 activate_def noteOn_def resume_def key_of_def set_add_def
        start_ops_def initial_def Let_def)
qed

end
